theory Spec2Isabelle
  imports Complex_Main
begin

section \<open>The inner environment\<close>

text \<open>
  Every wrapper of \<^verbatim>\<open>gymu/wrappers/atari/__init__.py\<close> holds one inner environment
  (\<^verbatim>\<open>self.env\<close>) and calls its \<^verbatim>\<open>step\<close> and \<^verbatim>\<open>reset\<close>; some also read the base
  environment (\<^verbatim>\<open>env.unwrapped\<close>): the action names, the lives counter of the engine,
  the identifier of the spec and the random generator. The inner environment is a record
  of functions over its state \<open>'s\<close>: a call takes the state and returns the new one.
  Observations are \<open>'o\<close>, the info dictionary is \<open>'i\<close>, the keyword arguments of
  \<^verbatim>\<open>reset(**kwargs)\<close> are \<open>'k\<close>, actions are integers and rewards are reals.
\<close>

record ('s, 'o, 'i, 'k) env =
  env_step :: "'s \<Rightarrow> int \<Rightarrow> ('o \<times> real \<times> bool \<times> 'i) \<times> 's"
  env_reset :: "'s \<Rightarrow> 'k \<Rightarrow> 'o \<times> 's"
  ale_lives :: "'s \<Rightarrow> int"
  get_action_meanings :: "string list"
  spec_id :: string
  np_randint :: "'s \<Rightarrow> int \<Rightarrow> int \<Rightarrow> int \<times> 's"

text \<open>The exceptions the wrappers can raise.\<close>

datatype error = AssertionError | IndexError | ValueError | UnboundLocalError

text \<open>Python's \<^verbatim>\<open>xs[i]\<close> for an index \<open>i \<ge> 0\<close>: out of range it raises IndexError.\<close>

definition py_index :: "'a list \<Rightarrow> nat \<Rightarrow> error + 'a" where
  "py_index xs i = (if i < length xs then Inr (xs ! i) else Inl IndexError)"

text \<open>
  \<^verbatim>\<open>np_random.randint(low, high)\<close> of numpy draws a 64-bit integer from the generator
  held by the base environment. It raises ValueError when \<open>low\<close> is below \<open>-2^63\<close>
  (low is out of bounds for int64), when \<open>high\<close> is above \<open>2^63\<close> (high is out of
  bounds for int64; \<open>high\<close> itself is never drawn) and when \<open>low \<ge> high\<close>.
\<close>

definition randint :: "('s, 'o, 'i, 'k) env \<Rightarrow> 's \<Rightarrow> int \<Rightarrow> int \<Rightarrow> error + (int \<times> 's)" where
  "randint E s low high =
     (if low < - (2 ^ 63) then Inl ValueError
      else if high > 2 ^ 63 then Inl ValueError
      else if low \<ge> high then Inl ValueError
      else Inr (np_randint E s low high))"

text \<open>
  What numpy promises of the generator: a draw \<open>n\<close> from \<^verbatim>\<open>randint(low, high)\<close>
  has \<open>low \<le> n < high\<close>.
\<close>

definition randint_in_range :: "('s, 'o, 'i, 'k) env \<Rightarrow> bool" where
  "randint_in_range E =
     (\<forall>s low high. low < high \<longrightarrow>
        low \<le> fst (np_randint E s low high) \<and> fst (np_randint E s low high) < high)"

section \<open>NoopResetEnv\<close>

record NoopResetEnv =
  noop_max :: int
  override_num_noops :: "int option"
  noop_action :: int

definition NoopResetEnv_init :: "('s, 'o, 'i, 'k) env \<Rightarrow> int \<Rightarrow> error + NoopResetEnv" where
  "NoopResetEnv_init E nmax =
     (case py_index (get_action_meanings E) 0 of
        Inl e \<Rightarrow> Inl e
      | Inr m \<Rightarrow>
          if m = ''NOOP''
          then Inr \<lparr>noop_max = nmax, override_num_noops = None, noop_action = 0\<rparr>
          else Inl AssertionError)"

text \<open>
  The loop \<^verbatim>\<open>for _ in range(noops)\<close>: \<open>obs\<close> is the variable of that name, \<open>None\<close>
  before the first iteration.
\<close>

fun noop_loop ::
  "('s, 'o, 'i, 'k) env \<Rightarrow> int \<Rightarrow> 'k \<Rightarrow> nat \<Rightarrow> 'o option \<Rightarrow> 's \<Rightarrow> 'o option \<times> 's" where
  "noop_loop E a kw 0 obs s = (obs, s)"
| "noop_loop E a kw (Suc n) obs s =
     (case env_step E s a of
        ((obs1, _, done, _), s1) \<Rightarrow>
          if done
          then (case env_reset E s1 kw of (obs2, s2) \<Rightarrow> noop_loop E a kw n (Some obs2) s2)
          else noop_loop E a kw n (Some obs1) s1)"

definition NoopResetEnv_reset ::
  "('s, 'o, 'i, 'k) env \<Rightarrow> NoopResetEnv \<Rightarrow> 's \<Rightarrow> 'k \<Rightarrow> error + ('o option \<times> 's)" where
  "NoopResetEnv_reset E w s kw =
     (case env_reset E s kw of
        (_, s1) \<Rightarrow>
          (case (case override_num_noops w of
                   Some n \<Rightarrow> Inr (n, s1)
                 | None \<Rightarrow> randint E s1 1 (noop_max w + 1)) of
             Inl e \<Rightarrow> Inl e
           | Inr (noops, s2) \<Rightarrow>
               if noops > 0
               then Inr (noop_loop E (noop_action w) kw (nat noops) None s2)
               else Inl AssertionError))"

text \<open>
  The value of the variable \<^verbatim>\<open>noops\<close> in \<^verbatim>\<open>reset\<close>, when the draw does not raise:
  the override if it is set, the draw after the inner reset otherwise.
\<close>

definition num_noops :: "('s, 'o, 'i, 'k) env \<Rightarrow> NoopResetEnv \<Rightarrow> 's \<Rightarrow> 'k \<Rightarrow> int" where
  "num_noops E w s kw =
     (case override_num_noops w of
        Some n \<Rightarrow> n
      | None \<Rightarrow> fst (np_randint E (snd (env_reset E s kw)) 1 (noop_max w + 1)))"

definition NoopResetEnv_step ::
  "('s, 'o, 'i, 'k) env \<Rightarrow> 's \<Rightarrow> int \<Rightarrow> ('o \<times> real \<times> bool \<times> 'i) \<times> 's" where
  "NoopResetEnv_step E s action = env_step E s action"

section \<open>FireResetEnv\<close>

definition FireResetEnv_init :: "('s, 'o, 'i, 'k) env \<Rightarrow> error + unit" where
  "FireResetEnv_init E =
     (case py_index (get_action_meanings E) 1 of
        Inl e \<Rightarrow> Inl e
      | Inr m \<Rightarrow>
          if m = ''FIRE''
          then (if length (get_action_meanings E) \<ge> 3 then Inr () else Inl AssertionError)
          else Inl AssertionError)"

definition FireResetEnv_reset :: "('s, 'o, 'i, 'k) env \<Rightarrow> 's \<Rightarrow> 'k \<Rightarrow> 'o \<times> 's" where
  "FireResetEnv_reset E s kw =
     (case env_reset E s kw of
        (_, s1) \<Rightarrow>
          (case env_step E s1 1 of
             ((obs, _, done, _), s2) \<Rightarrow>
               (case env_step E (if done then snd (env_reset E s2 kw) else s2) 2 of
                  ((obs, _, done, _), s4) \<Rightarrow>
                    (obs, if done then snd (env_reset E s4 kw) else s4))))"

definition FireResetEnv_step ::
  "('s, 'o, 'i, 'k) env \<Rightarrow> 's \<Rightarrow> int \<Rightarrow> ('o \<times> real \<times> bool \<times> 'i) \<times> 's" where
  "FireResetEnv_step E s action = env_step E s action"

section \<open>EpisodicLifeEnv\<close>

record EpisodicLifeEnv =
  lives :: int
  was_real_done :: bool

definition EpisodicLifeEnv_init :: EpisodicLifeEnv where
  "EpisodicLifeEnv_init = \<lparr>lives = 0, was_real_done = True\<rparr>"

definition EpisodicLifeEnv_step ::
  "('s, 'o, 'i, 'k) env \<Rightarrow> EpisodicLifeEnv \<Rightarrow> 's \<Rightarrow> int \<Rightarrow>
     ('o \<times> real \<times> bool \<times> 'i) \<times> EpisodicLifeEnv \<times> 's" where
  "EpisodicLifeEnv_step E w s action =
     (case env_step E s action of
        ((obs, reward, done, info), s1) \<Rightarrow>
          (let w1 = w\<lparr>was_real_done := done\<rparr>;
               lives' = ale_lives E s1;
               done' = (if 0 < lives' \<and> lives' < lives w1 then True else done);
               w2 = w1\<lparr>lives := lives'\<rparr>
           in ((obs, reward, done', info), w2, s1)))"

definition EpisodicLifeEnv_reset ::
  "('s, 'o, 'i, 'k) env \<Rightarrow> EpisodicLifeEnv \<Rightarrow> 's \<Rightarrow> 'k \<Rightarrow> 'o \<times> EpisodicLifeEnv \<times> 's" where
  "EpisodicLifeEnv_reset E w s kw =
     (case (if was_real_done w
            then env_reset E s kw
            else (case env_step E s 0 of ((obs, _, _, _), s1) \<Rightarrow> (obs, s1))) of
        (obs, s1) \<Rightarrow> (obs, w\<lparr>lives := ale_lives E s1\<rparr>, s1))"

section \<open>MaxAndSkipEnv\<close>

text \<open>
  An observation is a numpy array, here the list of its entries: its shape is the length
  of the list and its dtype the type \<open>'p\<close> of the entries. The buffer \<^verbatim>\<open>_obs_buffer\<close> is
  built with two slots of the shape and dtype of the observation space. Frames and
  buffer share the type \<open>'p\<close>: a frame of another dtype, which numpy would convert
  when it is assigned, does not occur here.
\<close>

record 'p MaxAndSkipEnv =
  obs_buffer :: "'p list \<times> 'p list"
  skip :: int

definition MaxAndSkipEnv_init :: "nat \<Rightarrow> int \<Rightarrow> ('p :: zero) MaxAndSkipEnv" where
  "MaxAndSkipEnv_init shape k = \<lparr>obs_buffer = (replicate shape 0, replicate shape 0), skip = k\<rparr>"

text \<open>
  The assignment of an array to a slot of the buffer, \<^verbatim>\<open>_obs_buffer[k] = obs\<close>: numpy
  copies an array of the shape of the slot, repeats a single entry over the slot, and
  raises ValueError (could not broadcast) for any other shape.
\<close>

definition assign_slot :: "'p list \<Rightarrow> 'p list \<Rightarrow> error + 'p list" where
  "assign_slot slot obs =
     (if length obs = length slot then Inr obs
      else if length obs = 1 then Inr (replicate (length slot) (hd obs))
      else Inl ValueError)"

definition set_slot0 :: "'p MaxAndSkipEnv \<Rightarrow> 'p list \<Rightarrow> error + 'p MaxAndSkipEnv" where
  "set_slot0 w obs =
     (case assign_slot (fst (obs_buffer w)) obs of
        Inl e \<Rightarrow> Inl e
      | Inr b \<Rightarrow> Inr (w\<lparr>obs_buffer := (b, snd (obs_buffer w))\<rparr>))"

definition set_slot1 :: "'p MaxAndSkipEnv \<Rightarrow> 'p list \<Rightarrow> error + 'p MaxAndSkipEnv" where
  "set_slot1 w obs =
     (case assign_slot (snd (obs_buffer w)) obs of
        Inl e \<Rightarrow> Inl e
      | Inr b \<Rightarrow> Inr (w\<lparr>obs_buffer := (fst (obs_buffer w), b)\<rparr>))"

text \<open>\<^verbatim>\<open>_obs_buffer.max(axis=0)\<close>: the maximum of the two slots, entry by entry.\<close>

definition buffer_max :: "('p :: linorder) list \<times> 'p list \<Rightarrow> 'p list" where
  "buffer_max b = map2 max (fst b) (snd b)"

text \<open>
  The loop \<^verbatim>\<open>for i in range(self._skip)\<close> over the indices still to run. \<open>latest\<close> holds
  \<^verbatim>\<open>done\<close> and \<^verbatim>\<open>info\<close> of the latest inner step; \<^verbatim>\<open>info\<close> is unbound before the
  first one. Rewards are Python floats, and \<^verbatim>\<open>total_reward += reward\<close> adds two floats
  with rounding: \<open>fadd\<close> is that addition of floats, on the real numbers the floats
  stand for. It is a parameter: nothing is assumed of it.
\<close>

fun skip_loop ::
  "(real \<Rightarrow> real \<Rightarrow> real) \<Rightarrow> ('s, 'p list, 'i, 'k) env \<Rightarrow> int \<Rightarrow> int list \<Rightarrow>
     'p MaxAndSkipEnv \<Rightarrow> real \<Rightarrow> (bool \<times> 'i) option \<Rightarrow> 's \<Rightarrow>
     error + ('p MaxAndSkipEnv \<times> real \<times> (bool \<times> 'i) option \<times> 's)" where
  "skip_loop fadd E action [] w total_reward latest s = Inr (w, total_reward, latest, s)"
| "skip_loop fadd E action (i # is) w total_reward latest s =
     (case env_step E s action of
        ((obs, reward, done, info), s1) \<Rightarrow>
          (case (if i = skip w - 2 then set_slot0 w obs else Inr w) of
             Inl e \<Rightarrow> Inl e
           | Inr w1 \<Rightarrow>
               (case (if i = skip w1 - 1 then set_slot1 w1 obs else Inr w1) of
                  Inl e \<Rightarrow> Inl e
                | Inr w2 \<Rightarrow>
                    (let total_reward1 = fadd total_reward reward
                     in if done then Inr (w2, total_reward1, Some (done, info), s1)
                        else skip_loop fadd E action is w2 total_reward1
                               (Some (done, info)) s1))))"

text \<open>\<^verbatim>\<open>range(n)\<close> for an integer \<open>n\<close>: empty when \<open>n \<le> 0\<close>.\<close>

definition py_range :: "int \<Rightarrow> int list" where
  "py_range n = map int [0..<nat n]"

definition MaxAndSkipEnv_step ::
  "(real \<Rightarrow> real \<Rightarrow> real) \<Rightarrow> ('s, ('p :: linorder) list, 'i, 'k) env \<Rightarrow>
     'p MaxAndSkipEnv \<Rightarrow> 's \<Rightarrow> int \<Rightarrow>
     error + (('p list \<times> real \<times> bool \<times> 'i) \<times> 'p MaxAndSkipEnv \<times> 's)" where
  "MaxAndSkipEnv_step fadd E w s action =
     (case skip_loop fadd E action (py_range (skip w)) w 0 None s of
        Inl e \<Rightarrow> Inl e
      | Inr (w', total_reward, latest, s') \<Rightarrow>
          (case latest of
             None \<Rightarrow> Inl UnboundLocalError
           | Some (done, info) \<Rightarrow>
               Inr ((buffer_max (obs_buffer w'), total_reward, done, info), w', s')))"

text \<open>
  Every frame the inner environment returns has \<open>n\<close> entries, and so has each slot of
  the buffer: the frames have the shape the buffer was built for.
\<close>

definition frames_have_shape :: "('s, 'p list, 'i, 'k) env \<Rightarrow> nat \<Rightarrow> bool" where
  "frames_have_shape E n = (\<forall>s a. length (fst (fst (env_step E s a))) = n)"

definition buffer_has_shape :: "'p MaxAndSkipEnv \<Rightarrow> nat \<Rightarrow> bool" where
  "buffer_has_shape w n =
     (length (fst (obs_buffer w)) = n \<and> length (snd (obs_buffer w)) = n)"

definition MaxAndSkipEnv_reset :: "('s, 'o, 'i, 'k) env \<Rightarrow> 's \<Rightarrow> 'k \<Rightarrow> 'o \<times> 's" where
  "MaxAndSkipEnv_reset E s kw = env_reset E s kw"

section \<open>ClipRewardEnv\<close>

text \<open>\<^verbatim>\<open>np.sign\<close> of numpy on a real number: \<open>-1\<close> below zero, \<open>0\<close> at zero, \<open>1\<close> above.\<close>

definition np_sign :: "real \<Rightarrow> real" where
  "np_sign x = (if x < 0 then - 1 else if x = 0 then 0 else 1)"

definition ClipRewardEnv_reward :: "real \<Rightarrow> real" where
  "ClipRewardEnv_reward reward = np_sign reward"

text \<open>
  \<^verbatim>\<open>ClipRewardEnv\<close> inherits \<^verbatim>\<open>step\<close> from \<^verbatim>\<open>gym.RewardWrapper\<close>, which steps the inner
  environment and passes the reward through \<^verbatim>\<open>self.reward\<close>.
\<close>

definition ClipRewardEnv_step ::
  "('s, 'o, 'i, 'k) env \<Rightarrow> 's \<Rightarrow> int \<Rightarrow> ('o \<times> real \<times> bool \<times> 'i) \<times> 's" where
  "ClipRewardEnv_step E s action =
     (case env_step E s action of
        ((observation, reward, done, info), s1) \<Rightarrow>
          ((observation, ClipRewardEnv_reward reward, done, info), s1))"

section \<open>wrap_atari\<close>

text \<open>Python's \<^verbatim>\<open>sub in s\<close> on strings: \<open>sub\<close> occurs in \<open>s\<close> as a contiguous run.\<close>

fun str_in :: "string \<Rightarrow> string \<Rightarrow> bool" where
  "str_in sub [] = (sub = [])"
| "str_in sub (c # cs) = (take (length sub) (c # cs) = sub \<or> str_in sub cs)"

text \<open>
  The object \<^verbatim>\<open>wrap_atari\<close> returns is a nest of wrappers around the base environment.
  Each constructor is one wrapper class around the environment it wraps, with the
  arguments of its construction.
\<close>

text \<open>
  Modelled from the spec: \<^verbatim>\<open>image\<close> (with \<^verbatim>\<open>grey\<close>, \<^verbatim>\<open>resize\<close>, \<^verbatim>\<open>CHW\<close> and the
  division) and \<^verbatim>\<open>Stack\<close> come from the modules \<^verbatim>\<open>..image\<close> and \<^verbatim>\<open>..np_wrap\<close>, which
  are not among the sources. The spec says of each that it accepts an environment and
  returns a wrapped environment; here each is a constructor that records its arguments
  (\<open>ImageWrap\<close>, \<open>Grey\<close>, \<open>Resize\<close>, \<open>CHW\<close>, \<open>Divide\<close>, \<open>Stack\<close>).
\<close>

datatype wrapped =
    Base
  | NoopReset wrapped NoopResetEnv
  | MaxAndSkip wrapped int
  | EpisodicLife wrapped EpisodicLifeEnv
  | FireReset wrapped
  | ImageWrap wrapped
  | Grey wrapped "real \<times> real \<times> real"
  | Resize wrapped int int int
  | CHW wrapped
  | Divide wrapped real
  | ClipReward wrapped
  | Stack wrapped int int

definition wrap_atari :: "('s, 'o, 'i, 'k) env \<Rightarrow> bool \<Rightarrow> bool \<Rightarrow> int \<Rightarrow> error + wrapped" where
  "wrap_atari E episode_life clip_rewards frame_stack =
     (if \<not> str_in ''NoFrameskip'' (spec_id E) then Inl AssertionError
      else
        (case NoopResetEnv_init E 30 of
           Inl e \<Rightarrow> Inl e
         | Inr w \<Rightarrow>
             (let env1 = NoopReset Base w;
                  env2 = MaxAndSkip env1 4;
                  env3 = (if episode_life then EpisodicLife env2 EpisodicLifeEnv_init else env2)
              in (case (if ''FIRE'' \<in> set (get_action_meanings E)
                        then (case FireResetEnv_init E of
                                Inl e \<Rightarrow> Inl e
                              | Inr _ \<Rightarrow> Inr (FireReset env3))
                        else Inr env3) of
                    Inl e \<Rightarrow> Inl e
                  | Inr env4 \<Rightarrow>
                      (let env5 = Grey (ImageWrap env4) (1 / 3, 1 / 3, 1 / 3);
                           env6 = Divide (CHW (Resize env5 84 84 1)) 255;
                           env7 = (if clip_rewards then ClipReward env6 else env6);
                           env8 = (if frame_stack > 1 then Stack env7 frame_stack 0 else env7)
                       in Inr env8)))))"

section \<open>Recording the calls a wrapper makes\<close>

text \<open>
  To say which inner calls a wrapper makes, and in which order, the inner environment is
  run with a log: every \<^verbatim>\<open>reset\<close> appends the observation it returned, every
  \<^verbatim>\<open>step\<close> the action it was given and the observation, reward and done flag it
  returned. The recording environment behaves as the environment it records.
\<close>

datatype 'o event = EvReset 'o | EvStep int 'o real bool

definition traced_step ::
  "('s, 'o, 'i, 'k) env \<Rightarrow> 's \<times> 'o event list \<Rightarrow> int \<Rightarrow>
     ('o \<times> real \<times> bool \<times> 'i) \<times> 's \<times> 'o event list" where
  "traced_step E sl a =
     (case env_step E (fst sl) a of
        ((obs, reward, done, info), s1) \<Rightarrow>
          ((obs, reward, done, info), (s1, snd sl @ [EvStep a obs reward done])))"

definition traced_reset ::
  "('s, 'o, 'i, 'k) env \<Rightarrow> 's \<times> 'o event list \<Rightarrow> 'k \<Rightarrow> 'o \<times> 's \<times> 'o event list" where
  "traced_reset E sl kw =
     (case env_reset E (fst sl) kw of (obs, s1) \<Rightarrow> (obs, (s1, snd sl @ [EvReset obs])))"

definition traced_randint ::
  "('s, 'o, 'i, 'k) env \<Rightarrow> 's \<times> 'o event list \<Rightarrow> int \<Rightarrow> int \<Rightarrow> int \<times> 's \<times> 'o event list" where
  "traced_randint E sl low high =
     (case np_randint E (fst sl) low high of (n, s1) \<Rightarrow> (n, (s1, snd sl)))"

definition traced :: "('s, 'o, 'i, 'k) env \<Rightarrow> ('s \<times> 'o event list, 'o, 'i, 'k) env" where
  "traced E =
     \<lparr>env_step = traced_step E,
      env_reset = traced_reset E,
      ale_lives = (\<lambda>sl. ale_lives E (fst sl)),
      get_action_meanings = get_action_meanings E,
      spec_id = spec_id E,
      np_randint = traced_randint E\<rparr>"

fun ev_obs :: "'o event \<Rightarrow> 'o" where
  "ev_obs (EvReset obs) = obs"
| "ev_obs (EvStep a obs reward done) = obs"

fun ev_reward :: "'o event \<Rightarrow> real" where
  "ev_reward (EvReset obs) = 0"
| "ev_reward (EvStep a obs reward done) = reward"

fun ev_done :: "'o event \<Rightarrow> bool" where
  "ev_done (EvReset obs) = False"
| "ev_done (EvStep a obs reward done) = done"

text \<open>The actions of the steps of a log, in order.\<close>

fun step_actions :: "'o event list \<Rightarrow> int list" where
  "step_actions [] = []"
| "step_actions (EvReset obs # es) = step_actions es"
| "step_actions (EvStep a obs reward done # es) = a # step_actions es"

text \<open>Every step of the log that reported done is followed at once by a reset.\<close>

fun resets_follow_done :: "'o event list \<Rightarrow> bool" where
  "resets_follow_done [] = True"
| "resets_follow_done (EvReset obs # es) = resets_follow_done es"
| "resets_follow_done (EvStep a obs reward done # es) =
     ((if done then (case es of EvReset obs2 # es2 \<Rightarrow> True | _ \<Rightarrow> False) else True)
      \<and> resets_follow_done es)"

text \<open>
  The inner environment with the reward of every step replaced: \<open>g\<close> gives the new
  reward from the state, the action and the old reward. Nothing else changes.
\<close>

definition reward_replaced ::
  "('s \<Rightarrow> int \<Rightarrow> real \<Rightarrow> real) \<Rightarrow> ('s, 'o, 'i, 'k) env \<Rightarrow> ('s, 'o, 'i, 'k) env" where
  "reward_replaced g E =
     E\<lparr>env_step := (\<lambda>s a.
        (case env_step E s a of
           ((obs, reward, done, info), s1) \<Rightarrow> ((obs, g s a reward, done, info), s1)))\<rparr>"

section \<open>A scripted game\<close>

text \<open>
  A small deterministic environment to run the wrappers on. Its state is the number of
  frames since the last reset; a frame is two pixels; the game is over on every fifth
  frame; a life is lost every second frame, from three lives; the generator draws the
  lowest value plus the frame number, folded into the range.
\<close>

definition game_step :: "nat \<Rightarrow> int \<Rightarrow> (int list \<times> real \<times> bool \<times> unit) \<times> nat" where
  "game_step s a = (([int s, 5 - int s], real s + 1, s mod 5 = 4, ()), Suc s)"

definition game_reset :: "nat \<Rightarrow> unit \<Rightarrow> int list \<times> nat" where
  "game_reset s kw = ([0, 0], 0)"

definition game_randint :: "nat \<Rightarrow> int \<Rightarrow> int \<Rightarrow> int \<times> nat" where
  "game_randint s low high = (low + int s mod (high - low), s)"

definition game :: "(nat, int list, unit, unit) env" where
  "game =
     \<lparr>env_step = game_step,
      env_reset = game_reset,
      ale_lives = (\<lambda>s. int (3 - s div 2)),
      get_action_meanings = [''NOOP'', ''FIRE'', ''UP''],
      spec_id = ''BreakoutNoFrameskip-v4'',
      np_randint = game_randint\<rparr>"

text \<open>The same game with the actions in an order that has FIRE last.\<close>

definition game_fire_last :: "(nat, int list, unit, unit) env" where
  "game_fire_last = game\<lparr>get_action_meanings := [''NOOP'', ''UP'', ''FIRE'']\<rparr>"

text \<open>The same game with a single action.\<close>

definition game_one_action :: "(nat, int list, unit, unit) env" where
  "game_one_action = game\<lparr>get_action_meanings := [''NOOP'']\<rparr>"

section \<open>Facts about the recording environment and the scripted game\<close>

lemma traced_simps:
  "env_step (traced E) = traced_step E"
  "env_reset (traced E) = traced_reset E"
  "ale_lives (traced E) sl = ale_lives E (fst sl)"
  "np_randint (traced E) = traced_randint E"
  "get_action_meanings (traced E) = get_action_meanings E"
  by (simp_all add: traced_def)

lemmas traced_calls = traced_simps traced_step_def traced_reset_def traced_randint_def

lemmas game_simps = game_def game_step_def game_reset_def game_randint_def

lemma step_result_cases:
  obtains obs r d i s1 where "env_step E s a = ((obs, r, d, i), s1)"
proof -
  obtain res s1 where "env_step E s a = (res, s1)"
    by (cases "env_step E s a")
  moreover obtain obs r d i where "res = (obs, r, d, i)"
    by (cases res)
  ultimately show ?thesis
    using that by simp
qed

lemma randint_in_range_game: "randint_in_range game"
proof -
  have "low \<le> low + int s mod (high - low) \<and> low + int s mod (high - low) < high"
    if "low < high" for s :: nat and low high :: int
  proof -
    from that have "0 < high - low" by simp
    then have "0 \<le> int s mod (high - low)" "int s mod (high - low) < high - low"
      by (rule pos_mod_sign, rule pos_mod_bound)
    then show ?thesis by simp
  qed
  then show ?thesis
    by (simp add: randint_in_range_def game_simps)
qed

section \<open>EpisodicLifeEnv: step and reset\<close>

text \<open>
  Claim C1. A call of \<^verbatim>\<open>step(action)\<close> on EpisodicLifeEnv makes one inner step with
  that action, stores the inner done flag in \<open>was_real_done\<close>, reads the lives counter of
  the engine after the step, and returns the inner observation, reward and info unchanged;
  the done flag it returns is true exactly when the inner done was true or the new lives
  count \<open>n\<close> has \<open>0 < n < lives\<close> for the \<open>lives\<close> stored before the call. Afterwards
  \<open>lives\<close> is the counter of the engine. On the recording environment the call adds
  exactly the one step to the log.
\<close>

theorem EpisodicLifeEnv_step_spec:
  "EpisodicLifeEnv_step E w s a =
     (case env_step E s a of
        ((obs, reward, done, info), s1) \<Rightarrow>
          ((obs, reward, done \<or> (0 < ale_lives E s1 \<and> ale_lives E s1 < lives w), info),
           \<lparr>lives = ale_lives E s1, was_real_done = done\<rparr>, s1))
   \<and> snd (snd (snd (EpisodicLifeEnv_step (traced E) w (s, tr) a))) =
       tr @ [case env_step E s a of
               ((obs, reward, done, info), s1) \<Rightarrow> EvStep a obs reward done]"
  by (auto simp: EpisodicLifeEnv_step_def Let_def traced_calls split: prod.splits)

text \<open>
  On the scripted game: with three lives stored, the step from frame 1 reaches frame 2,
  where two lives are left, so the step is reported done although the game goes on.
\<close>

theorem EpisodicLifeEnv_step_spec_witness:
  "EpisodicLifeEnv_step game \<lparr>lives = 3, was_real_done = True\<rparr> 1 0 =
     (([1, 4], 2, True, ()), \<lparr>lives = 2, was_real_done = False\<rparr>, 2)
   \<and> snd (snd (snd (EpisodicLifeEnv_step (traced game) \<lparr>lives = 3, was_real_done = True\<rparr>
         (1, []) 0))) = [EvStep 0 [1, 4] 2 False]"
  using EpisodicLifeEnv_step_spec[of game "\<lparr>lives = 3, was_real_done = True\<rparr>" 1 0 "[]"]
  by (simp add: game_simps)

text \<open>
  Claim C2. A call of \<^verbatim>\<open>reset\<close> on EpisodicLifeEnv: when \<open>was_real_done\<close> is true it
  resets the inner environment and returns the observation of that reset; otherwise it
  makes exactly one inner step with action 0, no reset, and returns the observation of
  that step. In both cases \<open>lives\<close> is then the lives counter of the engine. The log of
  the recording environment gains one event: the reset, or the step with action 0.
\<close>

theorem EpisodicLifeEnv_reset_spec:
  "EpisodicLifeEnv_reset E w s kw =
     (if was_real_done w
      then (case env_reset E s kw of
              (obs, s1) \<Rightarrow> (obs, w\<lparr>lives := ale_lives E s1\<rparr>, s1))
      else (case env_step E s 0 of
              ((obs, reward, done, info), s1) \<Rightarrow> (obs, w\<lparr>lives := ale_lives E s1\<rparr>, s1)))
   \<and> snd (snd (snd (EpisodicLifeEnv_reset (traced E) w (s, tr) kw))) =
       tr @ [if was_real_done w
             then EvReset (fst (env_reset E s kw))
             else (case env_step E s 0 of
                     ((obs, reward, done, info), s1) \<Rightarrow> EvStep 0 obs reward done)]"
  by (auto simp: EpisodicLifeEnv_reset_def Let_def traced_calls split: prod.splits)

text \<open>On the scripted game, after a lost life: one step with action 0 from frame 3.\<close>

theorem EpisodicLifeEnv_reset_spec_witness:
  "EpisodicLifeEnv_reset game \<lparr>lives = 3, was_real_done = False\<rparr> 3 () =
     ([3, 2], \<lparr>lives = 1, was_real_done = False\<rparr>, 4)
   \<and> snd (snd (snd (EpisodicLifeEnv_reset (traced game) \<lparr>lives = 3, was_real_done = False\<rparr>
         (3, []) ()))) = [EvStep 0 [3, 2] 4 False]"
  using EpisodicLifeEnv_reset_spec[of game "\<lparr>lives = 3, was_real_done = False\<rparr>" 3 "()" "[]"]
  by (simp add: game_simps)

text \<open>
  Claim C9, as amended. EpisodicLifeEnv is constructed with \<open>lives = 0\<close> and
  \<open>was_real_done = True\<close>, so a \<^verbatim>\<open>reset\<close> made on the wrapper before any step resets
  the inner environment, whatever the state of the engine: the only inner call is a
  reset, and no step is made. A \<^verbatim>\<open>reset\<close> that follows a step, from any state of the
  wrapper, resets the inner environment exactly when that step's inner done flag was
  true, and otherwise makes the one step with action 0.
\<close>

theorem EpisodicLifeEnv_first_reset:
  "EpisodicLifeEnv_init = \<lparr>lives = 0, was_real_done = True\<rparr>
   \<and> EpisodicLifeEnv_reset E EpisodicLifeEnv_init s kw =
       (case env_reset E s kw of
          (obs, s1) \<Rightarrow> (obs, \<lparr>lives = ale_lives E s1, was_real_done = True\<rparr>, s1))
   \<and> snd (snd (snd (EpisodicLifeEnv_reset (traced E) EpisodicLifeEnv_init (s, tr) kw))) =
       tr @ [EvReset (fst (env_reset E s kw))]
   \<and> snd (snd (snd (EpisodicLifeEnv_reset (traced E)
         (fst (snd (EpisodicLifeEnv_step E w s a)))
         (snd (snd (EpisodicLifeEnv_step E w s a)), tr) kw))) =
       tr @ [case env_step E s a of
               ((obs, reward, done, info), s1) \<Rightarrow>
                 if done then EvReset (fst (env_reset E s1 kw))
                 else (case env_step E s1 0 of
                         ((obs', reward', done', info'), s2) \<Rightarrow> EvStep 0 obs' reward' done')]"
proof -
  have a: "EpisodicLifeEnv_init = \<lparr>lives = 0, was_real_done = True\<rparr>"
    by (simp add: EpisodicLifeEnv_init_def)
  have b: "EpisodicLifeEnv_reset E EpisodicLifeEnv_init s kw =
       (case env_reset E s kw of
          (obs, s1) \<Rightarrow> (obs, \<lparr>lives = ale_lives E s1, was_real_done = True\<rparr>, s1))"
    by (auto simp: EpisodicLifeEnv_reset_def EpisodicLifeEnv_init_def split: prod.splits)
  have c: "snd (snd (snd (EpisodicLifeEnv_reset (traced E) EpisodicLifeEnv_init (s, tr) kw))) =
       tr @ [EvReset (fst (env_reset E s kw))]"
    by (auto simp: EpisodicLifeEnv_reset_def EpisodicLifeEnv_init_def traced_calls
        split: prod.splits)
  have d: "snd (snd (snd (EpisodicLifeEnv_reset (traced E)
         (fst (snd (EpisodicLifeEnv_step E w s a)))
         (snd (snd (EpisodicLifeEnv_step E w s a)), tr) kw))) =
       tr @ [case env_step E s a of
               ((obs, reward, done, info), s1) \<Rightarrow>
                 if done then EvReset (fst (env_reset E s1 kw))
                 else (case env_step E s1 0 of
                         ((obs', reward', done', info'), s2) \<Rightarrow> EvStep 0 obs' reward' done')]"
    by (auto simp: EpisodicLifeEnv_reset_def EpisodicLifeEnv_step_def Let_def traced_calls
        split: prod.splits)
  from a b c d show ?thesis by blast
qed

text \<open>
  The claim as first stated has the first reset after construction always reset the inner
  environment. On the scripted game, one step on the wrapper as constructed leaves
  \<open>was_real_done\<close> false, and the first reset then makes a step with action 0 and no
  reset of the game.
\<close>

theorem EpisodicLifeEnv_reset_after_step:
  "EpisodicLifeEnv_step game EpisodicLifeEnv_init 0 3 =
     (([0, 5], 1, False, ()), \<lparr>lives = 3, was_real_done = False\<rparr>, 1)
   \<and> EpisodicLifeEnv_reset (traced game) \<lparr>lives = 3, was_real_done = False\<rparr> (1, []) () =
       ([1, 4], \<lparr>lives = 2, was_real_done = False\<rparr>, 2, [EvStep 0 [1, 4] 2 False])"
  by (simp add: EpisodicLifeEnv_step_def EpisodicLifeEnv_reset_def EpisodicLifeEnv_init_def
      Let_def traced_calls game_simps)

text \<open>
  On the scripted game in the middle of an episode, at frame 3: the reset before any step
  resets the game, and the reset after a step that did not end the game does not.
\<close>

theorem EpisodicLifeEnv_first_reset_witness:
  "EpisodicLifeEnv_reset game EpisodicLifeEnv_init 3 () =
     ([0, 0], \<lparr>lives = 3, was_real_done = True\<rparr>, 0)
   \<and> snd (snd (snd (EpisodicLifeEnv_reset (traced game) EpisodicLifeEnv_init (3, []) ()))) =
       [EvReset [0, 0]]
   \<and> snd (snd (snd (EpisodicLifeEnv_reset (traced game)
         (fst (snd (EpisodicLifeEnv_step game EpisodicLifeEnv_init 3 2)))
         (snd (snd (EpisodicLifeEnv_step game EpisodicLifeEnv_init 3 2)), []) ()))) =
       [EvStep 0 [4, 1] 5 True]"
  using EpisodicLifeEnv_first_reset[where E = game and s = 3 and kw = "()" and tr = "[]"
      and w = EpisodicLifeEnv_init and a = 2]
  by (simp add: game_simps)

section \<open>ClipRewardEnv\<close>

text \<open>
  Claim C8. For every real reward \<open>r\<close> the reward transform of ClipRewardEnv returns the
  sign of \<open>r\<close>: 1 for \<open>r > 0\<close>, -1 for \<open>r < 0\<close> and 0 for \<open>r = 0\<close>; 5.0, -3.2 and 0.0
  go to 1.0, -1.0 and 0.0; and a step of the wrapper changes the reward of the inner step
  result and nothing else.
\<close>

theorem ClipRewardEnv_reward_sign:
  "ClipRewardEnv_reward r = (if r > 0 then 1 else if r < 0 then - 1 else 0)
   \<and> ClipRewardEnv_reward r = sgn r
   \<and> ClipRewardEnv_reward 5.0 = 1.0
   \<and> ClipRewardEnv_reward (- 3.2) = - 1.0
   \<and> ClipRewardEnv_reward 0.0 = 0.0
   \<and> ClipRewardEnv_step E s a =
       (case env_step E s a of
          ((obs, reward, done, info), s1) \<Rightarrow> ((obs, sgn reward, done, info), s1))"
  by (auto simp: ClipRewardEnv_reward_def np_sign_def ClipRewardEnv_step_def sgn_if
      split: prod.splits)

text \<open>On the scripted game: the reward 5 of the step from frame 4 is returned as 1.\<close>

theorem ClipRewardEnv_reward_sign_witness:
  "ClipRewardEnv_step game 4 0 = (([4, 1], 1, True, ()), 5)"
  using ClipRewardEnv_reward_sign[of 5 game 4 0]
  by (simp add: game_simps)

section \<open>MaxAndSkipEnv: step with skip = 4\<close>

lemma py_range_4: "py_range 4 = [0, 1, 2, 3]"
  by (simp add: py_range_def upt_rec)

lemma frame_length:
  "frames_have_shape E n \<Longrightarrow> env_step E s a = ((obs, r, d, i), s1) \<Longrightarrow> length obs = n"
  by (auto simp: frames_have_shape_def dest: arg_cong[where f = "\<lambda>x. length (fst (fst x))"])

lemma set_slot_fits:
  "length obs = length (fst (obs_buffer w)) \<Longrightarrow>
     set_slot0 w obs = Inr (w\<lparr>obs_buffer := (obs, snd (obs_buffer w))\<rparr>)"
  "length obs = length (snd (obs_buffer w)) \<Longrightarrow>
     set_slot1 w obs = Inr (w\<lparr>obs_buffer := (fst (obs_buffer w), obs)\<rparr>)"
  by (simp_all add: set_slot0_def set_slot1_def assign_slot_def)

text \<open>
  Claim C3. A call of \<^verbatim>\<open>step(action)\<close> on MaxAndSkipEnv with \<open>skip = 4\<close>, where the
  frames of the inner environment have the shape (and, by their type, the dtype) the
  buffer was built for, and \<open>fadd\<close> is the addition of floats, run on the
  recording environment from an empty log \<open>tr\<close>: it returns a result; the log holds
  between one and four events, all of them steps with the given action; no step before
  the last reported done, and the log is shorter than four only when the last step
  reported done; the done flag returned is that of the last step; the reward returned is
  the sum of the rewards of the steps made, added from 0.0 in the order of the steps
  with the addition of floats; slot 0 of the buffer holds the observation of the third
  step (index \<open>skip - 2\<close>) if it was made and is unchanged otherwise, slot 1 that of the
  fourth (index \<open>skip - 1\<close>) likewise; the observation returned is the maximum of the
  two slots, entry by entry. In particular, after four steps it is the maximum of the
  third and fourth frames, and when the second step reports done exactly two steps are
  made and the reward is the sum of their two rewards, added in that order to 0.0.
\<close>

theorem MaxAndSkipEnv_step_skip4:
  assumes "skip w = 4" and "buffer_has_shape w n" and "frames_have_shape E n"
  shows "case MaxAndSkipEnv_step fadd (traced E) w (s, []) a of
           Inl e \<Rightarrow> False
         | Inr ((obs, reward, done, info), w', (s', tr)) \<Rightarrow>
             1 \<le> length tr \<and> length tr \<le> 4
             \<and> step_actions tr = replicate (length tr) a
             \<and> filter ev_done (butlast tr) = []
             \<and> (length tr = 4 \<or> ev_done (last tr))
             \<and> done = ev_done (last tr)
             \<and> reward = foldl fadd 0 (map ev_reward tr)
             \<and> obs_buffer w' =
                 (if 3 \<le> length tr then ev_obs (tr ! 2) else fst (obs_buffer w),
                  if 4 \<le> length tr then ev_obs (tr ! 3) else snd (obs_buffer w))
             \<and> skip w' = 4
             \<and> buffer_has_shape w' n
             \<and> obs = map2 max (fst (obs_buffer w')) (snd (obs_buffer w'))
             \<and> (if length tr = 4
                 then obs = map2 max (ev_obs (tr ! 2)) (ev_obs (tr ! 3)) else True)
             \<and> (if 2 \<le> length tr \<and> ev_done (tr ! 1)
                 then length tr = 2
                      \<and> reward = fadd (fadd 0 (ev_reward (tr ! 0))) (ev_reward (tr ! 1))
                 else True)"
proof -
  obtain obs1 r1 d1 i1 s1 where st1: "env_step E s a = ((obs1, r1, d1, i1), s1)"
    by (rule step_result_cases)
  obtain obs2 r2 d2 i2 s2 where st2: "env_step E s1 a = ((obs2, r2, d2, i2), s2)"
    by (rule step_result_cases)
  obtain obs3 r3 d3 i3 s3 where st3: "env_step E s2 a = ((obs3, r3, d3, i3), s3)"
    by (rule step_result_cases)
  obtain obs4 r4 d4 i4 s4 where st4: "env_step E s3 a = ((obs4, r4, d4, i4), s4)"
    by (rule step_result_cases)
  have l3: "length obs3 = n" and l4: "length obs4 = n"
    using assms(3) st3 st4 by (auto dest: frame_length)
  have b: "length (fst (obs_buffer w)) = n" "length (snd (obs_buffer w)) = n"
    using assms(2) by (simp_all add: buffer_has_shape_def)
  note ev = MaxAndSkipEnv_step_def py_range_4 traced_simps traced_step_def buffer_max_def
    set_slot_fits buffer_has_shape_def Let_def
  show ?thesis
  proof (cases d1)
    case True
    with st1 assms(1) b show ?thesis
      by (simp add: ev)
  next
    case n1: False
    show ?thesis
    proof (cases d2)
      case True
      with n1 st1 st2 assms(1) b show ?thesis
        by (simp add: ev)
    next
      case n2: False
      show ?thesis
      proof (cases d3)
        case True
        with n1 n2 st1 st2 st3 assms(1) b l3 show ?thesis
          by (simp add: ev)
      next
        case False
        with n1 n2 st1 st2 st3 st4 assms(1) b l3 l4 show ?thesis
          by (simp add: ev)
      qed
    qed
  qed
qed

lemma frames_have_shape_game: "frames_have_shape game 2"
  by (simp add: frames_have_shape_def game_simps)

text \<open>
  On the scripted game from frame 0 no step reports done: four steps with action 3, the
  rewards 1, 2, 3, 4 add up to 10 (the sums of these floats are exact), and the frames
  \<open>[2, 3]\<close> and \<open>[3, 2]\<close> of the third and fourth step give \<open>[3, 3]\<close>.
\<close>

theorem MaxAndSkipEnv_step_skip4_witness:
  "skip (MaxAndSkipEnv_init 2 4 :: int MaxAndSkipEnv) = 4
   \<and> buffer_has_shape (MaxAndSkipEnv_init 2 4 :: int MaxAndSkipEnv) 2
   \<and> frames_have_shape game 2
   \<and> MaxAndSkipEnv_step (+) (traced game) (MaxAndSkipEnv_init 2 4) (0, []) 3 =
       Inr (([3, 3], 10, False, ()), \<lparr>obs_buffer = ([2, 3], [3, 2]), skip = 4\<rparr>, 4,
            [EvStep 3 [0, 5] 1 False, EvStep 3 [1, 4] 2 False,
             EvStep 3 [2, 3] 3 False, EvStep 3 [3, 2] 4 False])"
proof -
  have h: "skip (MaxAndSkipEnv_init 2 4 :: int MaxAndSkipEnv) = 4"
    by (simp add: MaxAndSkipEnv_init_def)
  have hb: "buffer_has_shape (MaxAndSkipEnv_init 2 4 :: int MaxAndSkipEnv) 2"
    by (simp add: MaxAndSkipEnv_init_def buffer_has_shape_def)
  have "MaxAndSkipEnv_step (+) (traced game) (MaxAndSkipEnv_init 2 4) (0, []) 3 =
       Inr (([3, 3], 10, False, ()), \<lparr>obs_buffer = ([2, 3], [3, 2]), skip = 4\<rparr>, 4,
            [EvStep 3 [0, 5] 1 False, EvStep 3 [1, 4] 2 False,
             EvStep 3 [2, 3] 3 False, EvStep 3 [3, 2] 4 False])"
    using MaxAndSkipEnv_step_skip4[where w = "MaxAndSkipEnv_init 2 4" and E = game
        and s = 0 and a = 3 and fadd = "(+)", OF h hb frames_have_shape_game]
    by (simp add: MaxAndSkipEnv_step_def MaxAndSkipEnv_init_def py_range_4 traced_calls
        game_simps buffer_max_def set_slot0_def set_slot1_def assign_slot_def)
  with h hb frames_have_shape_game show ?thesis by simp
qed

section \<open>NoopResetEnv: reset\<close>

text \<open>
  What the loop of no-ops adds to the log: \<open>n\<close> steps with the no-op action, a reset
  right after each step that reported done, and nothing else. The observation it leaves
  is that of the last event, which is a reset or a step that did not report done.
\<close>

lemma noop_loop_traced:
  "noop_loop (traced E) a kw n obs (s, tr) = (obs', (s', tr')) \<Longrightarrow>
   \<exists>evs. tr' = tr @ evs \<and> step_actions evs = replicate n a \<and> resets_follow_done evs
     \<and> (evs = [] \<longleftrightarrow> n = 0)
     \<and> obs' = (if evs = [] then obs else Some (ev_obs (last evs)))
     \<and> (evs = [] \<or> \<not> ev_done (last evs))"
proof (induction n arbitrary: obs s tr)
  case 0
  then show ?case by simp
next
  case (Suc n)
  obtain obs1 r1 d1 i1 s1 where st: "env_step E s a = ((obs1, r1, d1, i1), s1)"
    by (rule step_result_cases)
  show ?case
  proof (cases d1)
    case True
    obtain obs2 s2 where rs: "env_reset E s1 kw = (obs2, s2)"
      by (cases "env_reset E s1 kw")
    from Suc.prems st True rs
    have "noop_loop (traced E) a kw n (Some obs2) (s2, tr @ [EvStep a obs1 r1 True, EvReset obs2])
          = (obs', (s', tr'))"
      by (simp add: traced_calls)
    from Suc.IH[OF this] obtain evs where
      e: "tr' = (tr @ [EvStep a obs1 r1 True, EvReset obs2]) @ evs"
         "step_actions evs = replicate n a" "resets_follow_done evs"
         "evs = [] \<longleftrightarrow> n = 0"
         "obs' = (if evs = [] then Some obs2 else Some (ev_obs (last evs)))"
         "evs = [] \<or> \<not> ev_done (last evs)"
      by blast
    let ?evs = "[EvStep a obs1 r1 True, EvReset obs2] @ evs"
    from e have "tr' = tr @ ?evs \<and> step_actions ?evs = replicate (Suc n) a
      \<and> resets_follow_done ?evs \<and> (?evs = [] \<longleftrightarrow> Suc n = 0)
      \<and> obs' = (if ?evs = [] then obs else Some (ev_obs (last ?evs)))
      \<and> (?evs = [] \<or> \<not> ev_done (last ?evs))"
      by auto
    then show ?thesis by blast
  next
    case False
    from Suc.prems st False
    have "noop_loop (traced E) a kw n (Some obs1) (s1, tr @ [EvStep a obs1 r1 False])
          = (obs', (s', tr'))"
      by (simp add: traced_calls)
    from Suc.IH[OF this] obtain evs where
      e: "tr' = (tr @ [EvStep a obs1 r1 False]) @ evs"
         "step_actions evs = replicate n a" "resets_follow_done evs"
         "evs = [] \<longleftrightarrow> n = 0"
         "obs' = (if evs = [] then Some obs1 else Some (ev_obs (last evs)))"
         "evs = [] \<or> \<not> ev_done (last evs)"
      by blast
    let ?evs = "[EvStep a obs1 r1 False] @ evs"
    from e have "tr' = tr @ ?evs \<and> step_actions ?evs = replicate (Suc n) a
      \<and> resets_follow_done ?evs \<and> (?evs = [] \<longleftrightarrow> Suc n = 0)
      \<and> obs' = (if ?evs = [] then obs else Some (ev_obs (last ?evs)))
      \<and> (?evs = [] \<or> \<not> ev_done (last ?evs))"
      by auto
    then show ?thesis by blast
  qed
qed

text \<open>
  The whole reset on the recording environment, when the draw is within the range of the
  generator and \<open>noops\<close> is positive: the inner reset, then the loop.
\<close>

lemma noop_reset_traced:
  assumes pos: "0 < num_noops E w s kw"
    and nmax: "override_num_noops w = None \<Longrightarrow> 1 \<le> noop_max w \<and> noop_max w < 2 ^ 63"
  shows "\<exists>obs s' evs.
     NoopResetEnv_reset (traced E) w (s, tr) kw
       = Inr (Some obs, (s', tr @ EvReset (fst (env_reset E s kw)) # evs))
     \<and> step_actions evs = replicate (nat (num_noops E w s kw)) (noop_action w)
     \<and> resets_follow_done evs \<and> evs \<noteq> []
     \<and> obs = ev_obs (last evs) \<and> \<not> ev_done (last evs)"
proof -
  obtain obs0 s1 where rs: "env_reset E s kw = (obs0, s1)"
    by (cases "env_reset E s kw")
  define s2 where "s2 = (case override_num_noops w of Some n \<Rightarrow> s1
                         | None \<Rightarrow> snd (np_randint E s1 1 (noop_max w + 1)))"
  define n where "n = num_noops E w s kw"
  obtain obs' s' tr' where lp:
    "noop_loop (traced E) (noop_action w) kw (nat n) None (s2, tr @ [EvReset obs0])
       = (obs', (s', tr'))"
    by (metis prod_cases3)
  have res: "NoopResetEnv_reset (traced E) w (s, tr) kw = Inr (obs', (s', tr'))"
    using pos nmax rs lp
    by (auto simp: NoopResetEnv_reset_def traced_calls randint_def num_noops_def s2_def n_def
        split: option.splits prod.splits)
  from noop_loop_traced[OF lp] obtain evs where
    e1: "tr' = (tr @ [EvReset obs0]) @ evs"
    and e2: "step_actions evs = replicate (nat n) (noop_action w)"
    and e3: "resets_follow_done evs"
    and e4: "evs = [] \<longleftrightarrow> nat n = 0"
    and e5: "obs' = (if evs = [] then None else Some (ev_obs (last evs)))"
    and e6: "evs = [] \<or> \<not> ev_done (last evs)"
    by (elim exE conjE)
  from pos have "nat n \<noteq> 0" by (simp add: n_def)
  with e4 have ne: "evs \<noteq> []" by simp
  have r1: "NoopResetEnv_reset (traced E) w (s, tr) kw
       = Inr (Some (ev_obs (last evs)), (s', tr @ EvReset (fst (env_reset E s kw)) # evs))"
    using res e1 e5 ne rs by simp
  have r2: "step_actions evs = replicate (nat (num_noops E w s kw)) (noop_action w)"
    using e2 by (simp add: n_def)
  have r3: "\<not> ev_done (last evs)"
    using e6 ne by simp
  show ?thesis
    using r1 r2 e3 ne r3 by blast
qed

text \<open>With a generator that keeps numpy's promise, \<open>noops\<close> is positive and at most \<open>noop_max\<close>.\<close>

lemma num_noops_range:
  assumes "1 \<le> noop_max w" and "randint_in_range E"
    and "case override_num_noops w of None \<Rightarrow> noop_max w < 2 ^ 63 | Some k \<Rightarrow> 0 < k"
  shows "0 < num_noops E w s kw"
    and "override_num_noops w = None \<Longrightarrow> num_noops E w s kw \<le> noop_max w"
proof -
  have lt: "(1::int) < noop_max w + 1"
    using assms(1) by simp
  have draw: "1 \<le> fst (np_randint E s1 1 (noop_max w + 1))
      \<and> fst (np_randint E s1 1 (noop_max w + 1)) < noop_max w + 1" for s1
    using assms(2) lt unfolding randint_in_range_def by blast
  show "0 < num_noops E w s kw"
  proof (cases "override_num_noops w")
    case None
    with draw[of "snd (env_reset E s kw)"] show ?thesis
      by (simp add: num_noops_def)
  next
    case (Some k)
    with assms(3) show ?thesis
      by (simp add: num_noops_def)
  qed
  show "num_noops E w s kw \<le> noop_max w" if "override_num_noops w = None"
    using that draw[of "snd (env_reset E s kw)"] by (simp add: num_noops_def)
qed

text \<open>One iteration of the loop for a count written as a numeral.\<close>

lemma noop_loop_numeral:
  "noop_loop E a kw (numeral k) obs s =
     (case env_step E s a of
        ((obs1, r, d, i), s1) \<Rightarrow>
          if d
          then (case env_reset E s1 kw of
                  (obs2, s2) \<Rightarrow> noop_loop E a kw (pred_numeral k) (Some obs2) s2)
          else noop_loop E a kw (pred_numeral k) (Some obs1) s1)"
  by (simp add: numeral_eq_Suc split: prod.splits)

text \<open>
  Claim C4, as amended. A reset of NoopResetEnv with \<open>noop_max \<ge> 1\<close>, a generator
  whose draws from \<^verbatim>\<open>randint(low, high)\<close> lie in \<open>low \<le> n < high\<close>, and an override
  that is either unset, with \<open>noop_max < 2^63\<close>, or set to a positive value, run on the
  recording environment from an empty log: the reset returns (no assertion fails,
  nothing else is raised); every step in the log has the no-op action; the number of
  steps is the value of \<open>noops\<close>, which is the override when that is set and lies
  between 1 and \<open>noop_max\<close> when it is not.
\<close>

theorem NoopResetEnv_reset_noop_count:
  assumes "1 \<le> noop_max w" and "randint_in_range E"
    and "case override_num_noops w of None \<Rightarrow> noop_max w < 2 ^ 63 | Some k \<Rightarrow> 0 < k"
  shows "case NoopResetEnv_reset (traced E) w (s, []) kw of
           Inl e \<Rightarrow> False
         | Inr (obs, (s', tr)) \<Rightarrow>
             step_actions tr = replicate (length (step_actions tr)) (noop_action w)
             \<and> int (length (step_actions tr)) = num_noops E w s kw
             \<and> (case override_num_noops w of
                   Some k \<Rightarrow> int (length (step_actions tr)) = k
                 | None \<Rightarrow> 1 \<le> int (length (step_actions tr))
                            \<and> int (length (step_actions tr)) \<le> noop_max w)"
proof -
  have pos: "0 < num_noops E w s kw"
    using assms by (rule num_noops_range)
  have le: "override_num_noops w = None \<Longrightarrow> num_noops E w s kw \<le> noop_max w"
    using assms by (rule num_noops_range)
  have nm: "override_num_noops w = None \<Longrightarrow> 1 \<le> noop_max w \<and> noop_max w < 2 ^ 63"
    using assms(1,3) by simp
  from noop_reset_traced[OF pos nm, of "[]"]
  obtain obs s' evs where
    r: "NoopResetEnv_reset (traced E) w (s, []) kw
          = Inr (Some obs, (s', [] @ EvReset (fst (env_reset E s kw)) # evs))"
    and a: "step_actions evs = replicate (nat (num_noops E w s kw)) (noop_action w)"
    by blast
  have len: "int (length (step_actions evs)) = num_noops E w s kw"
    using a pos by simp
  have ov: "override_num_noops w = Some k \<Longrightarrow> num_noops E w s kw = k" for k
    by (simp add: num_noops_def)
  show ?thesis
  proof (cases "override_num_noops w")
    case None
    with r a len pos le[OF None] show ?thesis by simp
  next
    case (Some k)
    with r a len ov[OF Some] show ?thesis by simp
  qed
qed

text \<open>
  The claim as first stated asks only for \<open>noop_max \<ge> 1\<close>. With \<open>noop_max = 2^63\<close>
  and no override the wrapper is constructed, but the upper bound \<open>noop_max + 1\<close> of the
  draw is out of the range of the generator: the reset raises ValueError after the inner
  reset and makes no no-op at all.
\<close>

theorem NoopResetEnv_reset_noop_max_too_large:
  "1 \<le> noop_max \<lparr>noop_max = 2 ^ 63, override_num_noops = None, noop_action = 0\<rparr>
   \<and> randint_in_range game
   \<and> NoopResetEnv_init game (2 ^ 63) =
       Inr \<lparr>noop_max = 2 ^ 63, override_num_noops = None, noop_action = 0\<rparr>
   \<and> NoopResetEnv_reset (traced game)
        \<lparr>noop_max = 2 ^ 63, override_num_noops = None, noop_action = 0\<rparr> (6, []) () =
       Inl ValueError"
proof -
  have i: "NoopResetEnv_init game (2 ^ 63) =
       Inr \<lparr>noop_max = 2 ^ 63, override_num_noops = None, noop_action = 0\<rparr>"
    by (simp add: NoopResetEnv_init_def py_index_def game_def)
  have r: "NoopResetEnv_reset (traced game)
        \<lparr>noop_max = 2 ^ 63, override_num_noops = None, noop_action = 0\<rparr> (6, []) () =
       Inl ValueError"
    by (simp add: NoopResetEnv_reset_def randint_def traced_calls game_simps)
  from i r randint_in_range_game show ?thesis by simp
qed

text \<open>
  On the scripted game with the wrapper as constructed for \<open>noop_max = 30\<close>: the draw
  after the inner reset is 1, and one no-op is made.
\<close>

theorem NoopResetEnv_reset_noop_count_witness:
  "1 \<le> noop_max \<lparr>noop_max = 30, override_num_noops = None, noop_action = 0\<rparr>
   \<and> randint_in_range game
   \<and> noop_max \<lparr>noop_max = 30, override_num_noops = None, noop_action = 0\<rparr> < 2 ^ 63
   \<and> NoopResetEnv_init game 30 =
       Inr \<lparr>noop_max = 30, override_num_noops = None, noop_action = 0\<rparr>
   \<and> NoopResetEnv_reset (traced game)
        \<lparr>noop_max = 30, override_num_noops = None, noop_action = 0\<rparr> (6, []) () =
       Inr (Some [0, 5], 1, [EvReset [0, 0], EvStep 0 [0, 5] 1 False])"
proof -
  let ?w = "\<lparr>noop_max = 30, override_num_noops = None, noop_action = 0\<rparr>"
  have h1: "1 \<le> noop_max ?w" by simp
  have h3: "case override_num_noops ?w of None \<Rightarrow> noop_max ?w < 2 ^ 63 | Some k \<Rightarrow> 0 < k"
    by simp
  have i: "NoopResetEnv_init game 30 = Inr ?w"
    by (simp add: NoopResetEnv_init_def py_index_def game_def)
  have "NoopResetEnv_reset (traced game) ?w (6, []) () =
       Inr (Some [0, 5], 1, [EvReset [0, 0], EvStep 0 [0, 5] 1 False])"
    using NoopResetEnv_reset_noop_count[where E = game and s = 6 and kw = "()",
        OF h1 randint_in_range_game h3]
    by (simp add: NoopResetEnv_reset_def randint_def traced_calls game_simps)
  with h1 i randint_in_range_game show ?thesis by simp
qed

text \<open>
  Claim C5. A reset of NoopResetEnv with \<open>noop_max \<ge> 1\<close>, under the conditions in
  which it returns an observation (draws of the generator in range, and the override
  either unset, with \<open>noop_max < 2^63\<close>, or set to a positive value), run on the
  recording environment from an empty log: the reset returns; every step in the log that reported done is followed at once
  by a reset, and the loop goes on after it, since the number of steps is still the value
  of \<open>noops\<close>; the observation returned is that of the last event of the log, which is
  an inner reset or an inner step that did not report done.
\<close>

theorem NoopResetEnv_reset_live_obs:
  assumes "1 \<le> noop_max w" and "randint_in_range E"
    and "case override_num_noops w of None \<Rightarrow> noop_max w < 2 ^ 63 | Some k \<Rightarrow> 0 < k"
  shows "case NoopResetEnv_reset (traced E) w (s, []) kw of
           Inl e \<Rightarrow> False
         | Inr (obs, (s', tr)) \<Rightarrow>
             resets_follow_done tr
             \<and> int (length (step_actions tr)) = num_noops E w s kw
             \<and> tr \<noteq> []
             \<and> (case last tr of
                   EvReset obs' \<Rightarrow> obs = Some obs'
                 | EvStep a obs' r d \<Rightarrow> obs = Some obs' \<and> \<not> d)"
proof -
  have pos: "0 < num_noops E w s kw"
    using assms by (rule num_noops_range)
  have nm: "override_num_noops w = None \<Longrightarrow> 1 \<le> noop_max w \<and> noop_max w < 2 ^ 63"
    using assms(1,3) by simp
  from noop_reset_traced[OF pos nm, of "[]"]
  obtain obs s' evs where
    r: "NoopResetEnv_reset (traced E) w (s, []) kw
          = Inr (Some obs, (s', [] @ EvReset (fst (env_reset E s kw)) # evs))"
    and a: "step_actions evs = replicate (nat (num_noops E w s kw)) (noop_action w)"
    and f: "resets_follow_done evs" and ne: "evs \<noteq> []"
    and ob: "obs = ev_obs (last evs)" and lv: "\<not> ev_done (last evs)"
    by blast
  have len: "int (length (step_actions evs)) = num_noops E w s kw"
    using a pos by simp
  have live: "case last evs of
                EvReset obs' \<Rightarrow> Some obs = Some obs'
              | EvStep a obs' r d \<Rightarrow> Some obs = Some obs' \<and> \<not> d"
    using ob lv by (cases "last evs") simp_all
  show ?thesis
    using r f ne len live by simp
qed

text \<open>
  On the scripted game with six no-ops: the fifth step ends the episode, the game is
  reset at once, and the sixth step returns the observation of a game that goes on.
\<close>

theorem NoopResetEnv_reset_live_obs_witness:
  "1 \<le> noop_max \<lparr>noop_max = 30, override_num_noops = Some 6, noop_action = 0\<rparr>
   \<and> randint_in_range game
   \<and> NoopResetEnv_reset (traced game)
        \<lparr>noop_max = 30, override_num_noops = Some 6, noop_action = 0\<rparr> (6, []) () =
       Inr (Some [0, 5], 1,
         [EvReset [0, 0], EvStep 0 [0, 5] 1 False, EvStep 0 [1, 4] 2 False,
          EvStep 0 [2, 3] 3 False, EvStep 0 [3, 2] 4 False,
          EvStep 0 [4, 1] 5 True, EvReset [0, 0], EvStep 0 [0, 5] 1 False])"
proof -
  let ?w = "\<lparr>noop_max = 30, override_num_noops = Some 6, noop_action = 0\<rparr>"
  have h1: "1 \<le> noop_max ?w" by simp
  have h3: "case override_num_noops ?w of None \<Rightarrow> noop_max ?w < 2 ^ 63 | Some k \<Rightarrow> 0 < k"
    by simp
  have "NoopResetEnv_reset (traced game) ?w (6, []) () =
       Inr (Some [0, 5], 1,
         [EvReset [0, 0], EvStep 0 [0, 5] 1 False, EvStep 0 [1, 4] 2 False,
          EvStep 0 [2, 3] 3 False, EvStep 0 [3, 2] 4 False,
          EvStep 0 [4, 1] 5 True, EvReset [0, 0], EvStep 0 [0, 5] 1 False])"
    using NoopResetEnv_reset_live_obs[where E = game and s = 6 and kw = "()",
        OF h1 randint_in_range_game h3]
    by (simp add: NoopResetEnv_reset_def traced_calls game_simps noop_loop_numeral)
  with h1 randint_in_range_game show ?thesis by simp
qed

section \<open>FireResetEnv\<close>

text \<open>
  Claim C6, as amended. The construction of FireResetEnv succeeds exactly when the
  action names have \<^verbatim>\<open>'FIRE'\<close> at index 1 and are at least three. It fails with an
  IndexError exactly when there are fewer than two names, and with an assertion exactly
  when there are at least two names and either index 1 is not \<^verbatim>\<open>'FIRE'\<close> or there are
  fewer than three. Every reset, on the recording environment, resets the inner
  environment, steps with action 1, resets again if that step reported done, steps with
  action 2, resets again if that step reported done, and returns the observation of the
  step with action 2 in every case.
\<close>

theorem FireResetEnv_init_reset:
  "(FireResetEnv_init E = Inr () \<longleftrightarrow>
      1 < length (get_action_meanings E) \<and> get_action_meanings E ! 1 = ''FIRE''
      \<and> 3 \<le> length (get_action_meanings E))
   \<and> (FireResetEnv_init E = Inl IndexError \<longleftrightarrow> length (get_action_meanings E) < 2)
   \<and> (FireResetEnv_init E = Inl AssertionError \<longleftrightarrow>
         2 \<le> length (get_action_meanings E)
         \<and> (get_action_meanings E ! 1 \<noteq> ''FIRE'' \<or> length (get_action_meanings E) < 3))
   \<and> FireResetEnv_reset (traced E) (s, tr) kw =
       (case env_reset E s kw of
          (obs0, s1) \<Rightarrow>
            (case env_step E s1 1 of
               ((obs1, reward1, done1, info1), s2) \<Rightarrow>
                 (case env_step E (if done1 then snd (env_reset E s2 kw) else s2) 2 of
                    ((obs2, reward2, done2, info2), s4) \<Rightarrow>
                      (obs2,
                       (if done2 then snd (env_reset E s4 kw) else s4),
                       tr @ [EvReset obs0, EvStep 1 obs1 reward1 done1]
                          @ (if done1 then [EvReset (fst (env_reset E s2 kw))] else [])
                          @ [EvStep 2 obs2 reward2 done2]
                          @ (if done2 then [EvReset (fst (env_reset E s4 kw))] else [])))))"
proof -
  have init: "FireResetEnv_init E =
      (if length (get_action_meanings E) < 2 then Inl IndexError
       else if get_action_meanings E ! 1 = ''FIRE'' \<and> 3 \<le> length (get_action_meanings E)
       then Inr () else Inl AssertionError)"
    by (auto simp: FireResetEnv_init_def py_index_def)
  have a: "FireResetEnv_init E = Inr () \<longleftrightarrow>
      1 < length (get_action_meanings E) \<and> get_action_meanings E ! 1 = ''FIRE''
      \<and> 3 \<le> length (get_action_meanings E)"
    unfolding init by auto
  have b: "FireResetEnv_init E = Inl IndexError \<longleftrightarrow> length (get_action_meanings E) < 2"
    unfolding init by auto
  have c: "FireResetEnv_init E = Inl AssertionError \<longleftrightarrow>
         2 \<le> length (get_action_meanings E)
         \<and> (get_action_meanings E ! 1 \<noteq> ''FIRE'' \<or> length (get_action_meanings E) < 3)"
    unfolding init by auto
  have d: "FireResetEnv_reset (traced E) (s, tr) kw =
       (case env_reset E s kw of
          (obs0, s1) \<Rightarrow>
            (case env_step E s1 1 of
               ((obs1, reward1, done1, info1), s2) \<Rightarrow>
                 (case env_step E (if done1 then snd (env_reset E s2 kw) else s2) 2 of
                    ((obs2, reward2, done2, info2), s4) \<Rightarrow>
                      (obs2,
                       (if done2 then snd (env_reset E s4 kw) else s4),
                       tr @ [EvReset obs0, EvStep 1 obs1 reward1 done1]
                          @ (if done1 then [EvReset (fst (env_reset E s2 kw))] else [])
                          @ [EvStep 2 obs2 reward2 done2]
                          @ (if done2 then [EvReset (fst (env_reset E s4 kw))] else [])))))"
    by (auto simp: FireResetEnv_reset_def traced_calls split: prod.splits)
  from a b c d show ?thesis by blast
qed

text \<open>
  The claim as first stated has the construction fail by an assertion whenever the names
  are fewer than three. With the single name \<^verbatim>\<open>'NOOP'\<close> the read of index 1 raises
  an IndexError before any assertion is reached.
\<close>

theorem FireResetEnv_init_one_action:
  "length (get_action_meanings game_one_action) < 3
   \<and> FireResetEnv_init game_one_action = Inl IndexError
   \<and> FireResetEnv_init game_one_action \<noteq> Inl AssertionError"
  by (simp add: FireResetEnv_init_def game_one_action_def game_def py_index_def)

text \<open>On the scripted game, whose names are NOOP, FIRE, UP, from frame 3.\<close>

theorem FireResetEnv_init_reset_witness:
  "FireResetEnv_init game = Inr ()
   \<and> FireResetEnv_reset (traced game) (3, []) () =
       ([1, 4], 2, [EvReset [0, 0], EvStep 1 [0, 5] 1 False, EvStep 2 [1, 4] 2 False])"
  using FireResetEnv_init_reset[of game 3 "[]" "()"]
  by (simp add: game_simps)

section \<open>wrap_atari\<close>

text \<open>
  Claim C7, as amended. \<^verbatim>\<open>wrap_atari\<close> fails with an assertion when the identifier of
  the base environment does not contain \<^verbatim>\<open>'NoFrameskip'\<close>. With the marker it still
  fails when there is no action name (IndexError), when the first name is not
  \<^verbatim>\<open>'NOOP'\<close> (the assertion of NoopResetEnv), and when \<^verbatim>\<open>'FIRE'\<close> is among the
  names but not at index 1 or the names are fewer than three (the assertions of
  FireResetEnv). In every other case it builds, from the inside out: NoopResetEnv with
  \<open>noop_max = 30\<close>, MaxAndSkipEnv with \<open>skip = 4\<close>, EpisodicLifeEnv exactly when
  \<open>episode_life\<close>, FireResetEnv exactly when \<^verbatim>\<open>'FIRE'\<close> is among the names, the
  visual transform (grey with weights 1/3 each, resize to 84 by 84 with 1 channel,
  channels first, division by 255), ClipRewardEnv exactly when \<open>clip_rewards\<close>, and
  Stack of depth \<open>frame_stack\<close> along axis 0 exactly when \<open>frame_stack > 1\<close>.
\<close>

theorem wrap_atari_chain:
  "wrap_atari E episode_life clip_rewards frame_stack =
     (if \<not> str_in ''NoFrameskip'' (spec_id E) then Inl AssertionError
      else if get_action_meanings E = [] then Inl IndexError
      else if get_action_meanings E ! 0 \<noteq> ''NOOP'' then Inl AssertionError
      else if ''FIRE'' \<in> set (get_action_meanings E)
              \<and> (get_action_meanings E ! 1 \<noteq> ''FIRE'' \<or> length (get_action_meanings E) < 3)
           then Inl AssertionError
      else Inr
        ((if frame_stack > 1 then (\<lambda>e. Stack e frame_stack 0) else id)
        ((if clip_rewards then ClipReward else id)
        (Divide (CHW (Resize (Grey (ImageWrap
        ((if ''FIRE'' \<in> set (get_action_meanings E) then FireReset else id)
        ((if episode_life then (\<lambda>e. EpisodicLife e EpisodicLifeEnv_init) else id)
        (MaxAndSkip
        (NoopReset Base \<lparr>noop_max = 30, override_num_noops = None, noop_action = 0\<rparr>) 4))))
        (1 / 3, 1 / 3, 1 / 3)) 84 84 1)) 255))))"
proof -
  have fire: "''FIRE'' \<in> set (get_action_meanings E) \<Longrightarrow> get_action_meanings E ! 0 = ''NOOP''
    \<Longrightarrow> 2 \<le> length (get_action_meanings E)"
    by (cases "get_action_meanings E"; cases "tl (get_action_meanings E)") auto
  show ?thesis
    using fire
    by (auto simp: wrap_atari_def NoopResetEnv_init_def FireResetEnv_init_def py_index_def
        Let_def split: sum.splits)
qed

text \<open>
  The claim as first stated has the chain built whenever the marker is there. With the
  names NOOP, UP, FIRE the marker is there and \<^verbatim>\<open>'FIRE'\<close> is among the names, yet the
  construction of FireResetEnv fails its assertion and no chain is built.
\<close>

theorem wrap_atari_fire_last:
  "str_in ''NoFrameskip'' (spec_id game_fire_last)
   \<and> ''FIRE'' \<in> set (get_action_meanings game_fire_last)
   \<and> wrap_atari game_fire_last False True 4 = Inl AssertionError"
  by (simp add: wrap_atari_def game_fire_last_def game_def NoopResetEnv_init_def
      FireResetEnv_init_def py_index_def)

text \<open>On the scripted game with every option on.\<close>

theorem wrap_atari_chain_witness:
  "wrap_atari game True True 4 =
     Inr (Stack (ClipReward (Divide (CHW (Resize (Grey (ImageWrap (FireReset
       (EpisodicLife
          (MaxAndSkip
             (NoopReset Base \<lparr>noop_max = 30, override_num_noops = None, noop_action = 0\<rparr>) 4)
          \<lparr>lives = 0, was_real_done = True\<rparr>)))
       (1 / 3, 1 / 3, 1 / 3)) 84 84 1)) 255)) 4 0)"
  using wrap_atari_chain[of game True True 4]
  by (simp add: game_def EpisodicLifeEnv_init_def)

section \<open>Rewards inside a reset\<close>

lemma noop_loop_reward_replaced:
  "noop_loop (reward_replaced g E) a kw n obs s = noop_loop E a kw n obs s"
  by (induction n arbitrary: obs s) (auto simp: reward_replaced_def split: prod.splits)

text \<open>
  Claim C10. The reward of an inner step made inside a reset never reaches the caller:
  replace the reward of every inner step by anything at all, and the reset of
  NoopResetEnv, of FireResetEnv and of EpisodicLifeEnv returns the same observation and
  leaves the same state. By their types the three resets return an observation and no
  reward.
\<close>

theorem reset_rewards_discarded:
  "NoopResetEnv_reset (reward_replaced g E) w s kw = NoopResetEnv_reset E w s kw
   \<and> FireResetEnv_reset (reward_replaced g E) s kw = FireResetEnv_reset E s kw
   \<and> EpisodicLifeEnv_reset (reward_replaced g E) w' s kw = EpisodicLifeEnv_reset E w' s kw"
proof -
  have r: "env_reset (reward_replaced g E) = env_reset E"
    "np_randint (reward_replaced g E) = np_randint E"
    "ale_lives (reward_replaced g E) = ale_lives E"
    by (simp_all add: reward_replaced_def)
  have st: "env_step (reward_replaced g E) s a =
    (case env_step E s a of
       ((obs, reward, done, info), s1) \<Rightarrow> ((obs, g s a reward, done, info), s1))" for s a
    by (simp add: reward_replaced_def)
  have 1: "NoopResetEnv_reset (reward_replaced g E) w s kw = NoopResetEnv_reset E w s kw"
    by (auto simp: NoopResetEnv_reset_def r randint_def noop_loop_reward_replaced
        split: prod.splits option.splits sum.splits)
  have 2: "FireResetEnv_reset (reward_replaced g E) s kw = FireResetEnv_reset E s kw"
    by (auto simp: FireResetEnv_reset_def r st split: prod.splits)
  have 3: "EpisodicLifeEnv_reset (reward_replaced g E) w' s kw = EpisodicLifeEnv_reset E w' s kw"
    by (auto simp: EpisodicLifeEnv_reset_def r st split: prod.splits)
  from 1 2 3 show ?thesis by blast
qed

text \<open>On the scripted game with every reward set to 0: the reset of FireResetEnv is as before.\<close>

theorem reset_rewards_discarded_witness:
  "FireResetEnv_reset (reward_replaced (\<lambda>s a r. 0) game) 3 () = ([1, 4], 2)"
  using reset_rewards_discarded[of "\<lambda>s a r. 0" game
      "\<lparr>noop_max = 30, override_num_noops = None, noop_action = 0\<rparr>" 3 "()"
      EpisodicLifeEnv_init]
  by (simp add: FireResetEnv_reset_def game_simps)

end
